theory Spec2Isabelle
  imports Complex_Main
begin

section \<open>Array cells\<close>

text \<open>
  The notebook computes on numpy/xarray arrays of floating-point numbers. A cell of such
  an array is a finite number, one of the two infinities, or NaN (xarray decodes a missing
  value as NaN). Finite arithmetic is taken exact (no rounding, no overflow), except where
  a rounding is written out, and zero carries no sign: \<open>Fin 0\<close> stands for \<open>+0.0\<close>, and
  \<open>-0.0\<close> has no cell. The special values follow IEEE 754 as numpy
  applies it with warnings silenced (the notebook's first code cell): a division by zero
  gives an infinity, the logarithm or square root of a negative number gives NaN, and NaN
  propagates.
\<close>

datatype cell = Fin real | PInf | NInf | NaN

type_synonym field = "cell list list"

fun fadd :: "cell \<Rightarrow> cell \<Rightarrow> cell" where
  "fadd (Fin x) (Fin y) = Fin (x + y)"
| "fadd (Fin x) PInf = PInf"
| "fadd (Fin x) NInf = NInf"
| "fadd PInf (Fin y) = PInf"
| "fadd PInf PInf = PInf"
| "fadd PInf NInf = NaN"
| "fadd NInf (Fin y) = NInf"
| "fadd NInf PInf = NaN"
| "fadd NInf NInf = NInf"
| "fadd NaN b = NaN"
| "fadd a NaN = NaN"

fun fsub :: "cell \<Rightarrow> cell \<Rightarrow> cell" where
  "fsub (Fin x) (Fin y) = Fin (x - y)"
| "fsub (Fin x) PInf = NInf"
| "fsub (Fin x) NInf = PInf"
| "fsub PInf (Fin y) = PInf"
| "fsub PInf PInf = NaN"
| "fsub PInf NInf = PInf"
| "fsub NInf (Fin y) = NInf"
| "fsub NInf PInf = NInf"
| "fsub NInf NInf = NaN"
| "fsub NaN b = NaN"
| "fsub a NaN = NaN"

fun fmul :: "cell \<Rightarrow> cell \<Rightarrow> cell" where
  "fmul (Fin x) (Fin y) = Fin (x * y)"
| "fmul (Fin x) PInf = (if x = 0 then NaN else if 0 < x then PInf else NInf)"
| "fmul (Fin x) NInf = (if x = 0 then NaN else if 0 < x then NInf else PInf)"
| "fmul PInf (Fin y) = (if y = 0 then NaN else if 0 < y then PInf else NInf)"
| "fmul NInf (Fin y) = (if y = 0 then NaN else if 0 < y then NInf else PInf)"
| "fmul PInf PInf = PInf"
| "fmul PInf NInf = NInf"
| "fmul NInf PInf = NInf"
| "fmul NInf NInf = PInf"
| "fmul NaN b = NaN"
| "fmul a NaN = NaN"

fun fdiv :: "cell \<Rightarrow> cell \<Rightarrow> cell" where
  "fdiv (Fin x) (Fin y) =
     (if y \<noteq> 0 then Fin (x / y)
      else if x = 0 then NaN else if 0 < x then PInf else NInf)"
| "fdiv (Fin x) PInf = Fin 0"
| "fdiv (Fin x) NInf = Fin 0"
| "fdiv PInf (Fin y) = (if 0 \<le> y then PInf else NInf)"
| "fdiv NInf (Fin y) = (if 0 \<le> y then NInf else PInf)"
| "fdiv PInf PInf = NaN"
| "fdiv PInf NInf = NaN"
| "fdiv NInf PInf = NaN"
| "fdiv NInf NInf = NaN"
| "fdiv NaN b = NaN"
| "fdiv a NaN = NaN"

text \<open>\<open>np.log\<close>: minus infinity at zero, NaN below zero.\<close>

fun flog :: "cell \<Rightarrow> cell" where
  "flog (Fin x) = (if 0 < x then Fin (ln x) else if x = 0 then NInf else NaN)"
| "flog PInf = PInf"
| "flog NInf = NaN"
| "flog NaN = NaN"

text \<open>\<open>np.sqrt\<close>: NaN below zero.\<close>

fun fsqrt :: "cell \<Rightarrow> cell" where
  "fsqrt (Fin x) = (if x < 0 then NaN else Fin (sqrt x))"
| "fsqrt PInf = PInf"
| "fsqrt NInf = NaN"
| "fsqrt NaN = NaN"

fun fexp :: "cell \<Rightarrow> cell" where
  "fexp (Fin x) = Fin (exp x)"
| "fexp PInf = PInf"
| "fexp NInf = Fin 0"
| "fexp NaN = NaN"

text \<open>\<open>a ** n\<close> for a natural exponent \<open>n\<close>; anything to the power 0 is 1.\<close>

fun fpow :: "cell \<Rightarrow> nat \<Rightarrow> cell" where
  "fpow a 0 = Fin 1"
| "fpow (Fin x) n = Fin (x ^ n)"
| "fpow PInf n = PInf"
| "fpow NInf n = (if even n then PInf else NInf)"
| "fpow NaN n = NaN"

text \<open>
  A numpy operation between an array and a scalar, and a numpy function of an array, act
  on every cell and keep the array's shape.
\<close>

definition elementwise :: "(cell \<Rightarrow> cell) \<Rightarrow> field \<Rightarrow> field" where
  "elementwise f a = map (map f) a"

definition shape :: "field \<Rightarrow> nat list" where
  "shape a = map length a"


section \<open>Radiance to brightness temperature (infrared channel)\<close>

text \<open>
  \<^verbatim>\<open>T = fk2 / (np.log((fk1 / ir_rad) + 1))\<close> and
  \<^verbatim>\<open>ir_BT = bc2*T + bc1\<close>, one array operation after the other. The four band
  constants are numbers read from the file.
\<close>

definition T :: "real \<Rightarrow> real \<Rightarrow> field \<Rightarrow> field" where
  "T fk1 fk2 ir_rad =
     elementwise (fdiv (Fin fk2))
       (elementwise flog
         (elementwise (\<lambda>q. fadd q (Fin 1))
           (elementwise (fdiv (Fin fk1)) ir_rad)))"

definition ir_BT :: "real \<Rightarrow> real \<Rightarrow> real \<Rightarrow> real \<Rightarrow> field \<Rightarrow> field" where
  "ir_BT fk1 fk2 bc1 bc2 ir_rad =
     elementwise (\<lambda>p. fadd p (Fin bc1))
       (elementwise (fmul (Fin bc2)) (T fk1 fk2 ir_rad))"

text \<open>What the two lines make of one cell.\<close>

definition ir_BT_cell :: "real \<Rightarrow> real \<Rightarrow> real \<Rightarrow> real \<Rightarrow> cell \<Rightarrow> cell" where
  "ir_BT_cell fk1 fk2 bc1 bc2 c =
     fadd (fmul (Fin bc2) (fdiv (Fin fk2) (flog (fadd (fdiv (Fin fk1) c) (Fin 1))))) (Fin bc1)"


section \<open>Radiance to brightness temperature (water-vapour channel)\<close>

text \<open>\<^verbatim>\<open>wv_BT = (fk2 / (np.log((fk1/wv_rad)+1)) - bc1)/bc2\<close>\<close>

definition wv_BT :: "real \<Rightarrow> real \<Rightarrow> real \<Rightarrow> real \<Rightarrow> field \<Rightarrow> field" where
  "wv_BT fk1 fk2 bc1 bc2 wv_rad =
     elementwise (\<lambda>d. fdiv d (Fin bc2))
       (elementwise (\<lambda>t. fsub t (Fin bc1))
         (elementwise (fdiv (Fin fk2))
           (elementwise flog
             (elementwise (\<lambda>q. fadd q (Fin 1))
               (elementwise (fdiv (Fin fk1)) wv_rad)))))"


section \<open>Emitted energy\<close>

text \<open>\<^verbatim>\<open>sb_constant = 5.67e-8\<close> and \<^verbatim>\<open>E = sb_constant*wv_BT**4\<close>\<close>

definition sb_constant :: real where
  "sb_constant = 567 / 10 ^ 10"

definition E :: "field \<Rightarrow> field" where
  "E bt = elementwise (fmul (Fin sb_constant)) (elementwise (\<lambda>t. fpow t 4) bt)"


section \<open>Radiance to reflectance factor\<close>

text \<open>\<^verbatim>\<open>vis = np.sqrt(ds.Rad*ds.kappa0)\<close>\<close>

definition vis :: "field \<Rightarrow> real \<Rightarrow> field" where
  "vis Rad kappa0 = elementwise fsqrt (elementwise (\<lambda>r. fmul r (Fin kappa0)) Rad)"


section \<open>The Planck function of the specification\<close>

text \<open>
  The notebook never computes a radiance from a temperature; its text and the
  specification give the Planck function \<open>L = fk1 / (exp (fk2 / T) - 1)\<close>, and the
  specification's round trip first undoes the bandpass correction,
  \<open>T = (BT - bc1) / bc2\<close>. This definition follows those words.
\<close>

definition spec_planck_radiance :: "real \<Rightarrow> real \<Rightarrow> real \<Rightarrow> real \<Rightarrow> field \<Rightarrow> field" where
  "spec_planck_radiance fk1 fk2 bc1 bc2 bt =
     elementwise (fdiv (Fin fk1))
       (elementwise (\<lambda>e. fsub e (Fin 1))
         (elementwise fexp
           (elementwise (fdiv (Fin fk2))
             (elementwise (\<lambda>d. fdiv d (Fin bc2))
               (elementwise (\<lambda>b. fsub b (Fin bc1)) bt)))))"

definition spec_planck_cell :: "real \<Rightarrow> real \<Rightarrow> real \<Rightarrow> real \<Rightarrow> cell \<Rightarrow> cell" where
  "spec_planck_cell fk1 fk2 bc1 bc2 b =
     fdiv (Fin fk1) (fsub (fexp (fdiv (Fin fk2) (fdiv (fsub b (Fin bc1)) (Fin bc2)))) (Fin 1))"


section \<open>The infrared conversion with rounded arithmetic\<close>

text \<open>
  A floating-point operation returns the exact result rounded to the format. To see what
  rounding does to the order of brightness temperatures, the two lines of the infrared
  conversion are written once more with the rounding made explicit: \<open>r\<close> rounds the result
  of each division, addition and multiplication, and \<open>lg\<close> is the logarithm as the library
  computes it. Infinities and NaN are as before; overflow and underflow of finite results
  are not modelled. With no rounding (\<open>r\<close> the identity, \<open>lg = ln\<close>) this is \<open>ir_BT\<close>.
\<close>

fun rnd_cell :: "(real \<Rightarrow> real) \<Rightarrow> cell \<Rightarrow> cell" where
  "rnd_cell r (Fin x) = Fin (r x)"
| "rnd_cell r PInf = PInf"
| "rnd_cell r NInf = NInf"
| "rnd_cell r NaN = NaN"

fun rlog :: "(real \<Rightarrow> real) \<Rightarrow> cell \<Rightarrow> cell" where
  "rlog lg (Fin x) = (if 0 < x then Fin (lg x) else if x = 0 then NInf else NaN)"
| "rlog lg PInf = PInf"
| "rlog lg NInf = NaN"
| "rlog lg NaN = NaN"

definition T_rnd :: "(real \<Rightarrow> real) \<Rightarrow> (real \<Rightarrow> real) \<Rightarrow> real \<Rightarrow> real \<Rightarrow> field \<Rightarrow> field" where
  "T_rnd r lg fk1 fk2 ir_rad =
     elementwise (\<lambda>d. rnd_cell r (fdiv (Fin fk2) d))
       (elementwise (rlog lg)
         (elementwise (\<lambda>q. rnd_cell r (fadd q (Fin 1)))
           (elementwise (\<lambda>c. rnd_cell r (fdiv (Fin fk1) c)) ir_rad)))"

definition ir_BT_rnd ::
  "(real \<Rightarrow> real) \<Rightarrow> (real \<Rightarrow> real) \<Rightarrow> real \<Rightarrow> real \<Rightarrow> real \<Rightarrow> real \<Rightarrow> field \<Rightarrow> field" where
  "ir_BT_rnd r lg fk1 fk2 bc1 bc2 ir_rad =
     elementwise (\<lambda>p. rnd_cell r (fadd p (Fin bc1)))
       (elementwise (\<lambda>t. rnd_cell r (fmul (Fin bc2) t)) (T_rnd r lg fk1 fk2 ir_rad))"

text \<open>
  What the two lines make of one cell: \<open>after_add\<close> is the part that follows the rounded
  sum \<open>fk1 / L + 1\<close>.
\<close>

definition after_add ::
  "(real \<Rightarrow> real) \<Rightarrow> (real \<Rightarrow> real) \<Rightarrow> real \<Rightarrow> real \<Rightarrow> real \<Rightarrow> cell \<Rightarrow> cell" where
  "after_add r lg fk2 bc1 bc2 s =
     rnd_cell r (fadd (rnd_cell r (fmul (Fin bc2) (rnd_cell r (fdiv (Fin fk2) (rlog lg s)))))
       (Fin bc1))"

definition ir_BT_rnd_cell ::
  "(real \<Rightarrow> real) \<Rightarrow> (real \<Rightarrow> real) \<Rightarrow> real \<Rightarrow> real \<Rightarrow> real \<Rightarrow> real \<Rightarrow> cell \<Rightarrow> cell" where
  "ir_BT_rnd_cell r lg fk1 fk2 bc1 bc2 c =
     after_add r lg fk2 bc1 bc2 (rnd_cell r (fadd (rnd_cell r (fdiv (Fin fk1) c)) (Fin 1)))"

text \<open>
  Rounding to nearest, ties to even, onto the binary numbers with \<open>m\<close> fraction bits and
  unbounded exponent: \<open>rhe\<close> rounds a real to an integer (half to even), \<open>rnd m\<close> scales
  by the unit in the last place of its argument. \<open>binary64\<close> has 52 fraction bits;
  \<open>log64\<close> is a logarithm rounded correctly to it.
\<close>

definition rhe :: "real \<Rightarrow> int" where
  "rhe y = (let f = \<lfloor>y\<rfloor> in
              if y - of_int f < 1/2 then f
              else if 1/2 < y - of_int f then f + 1
              else if even f then f else f + 1)"

definition rnd :: "nat \<Rightarrow> real \<Rightarrow> real" where
  "rnd m x = (if x = 0 then 0
              else (let u = 2 powr (of_int \<lfloor>log 2 \<bar>x\<bar>\<rfloor> - real m)
                    in of_int (rhe (x / u)) * u))"

definition binary64 :: "real \<Rightarrow> real" where
  "binary64 = rnd 52"

definition log64 :: "real \<Rightarrow> real" where
  "log64 x = binary64 (ln x)"

text \<open>The comparisons \<^verbatim>\<open><=\<close> and \<^verbatim>\<open><\<close> of two cells: false when either is NaN.\<close>

fun cell_le :: "cell \<Rightarrow> cell \<Rightarrow> bool" where
  "cell_le (Fin x) (Fin y) = (x \<le> y)"
| "cell_le (Fin x) PInf = True"
| "cell_le (Fin x) NInf = False"
| "cell_le PInf (Fin y) = False"
| "cell_le PInf PInf = True"
| "cell_le PInf NInf = False"
| "cell_le NInf (Fin y) = True"
| "cell_le NInf PInf = True"
| "cell_le NInf NInf = True"
| "cell_le NaN b = False"
| "cell_le a NaN = False"

fun cell_less :: "cell \<Rightarrow> cell \<Rightarrow> bool" where
  "cell_less (Fin x) (Fin y) = (x < y)"
| "cell_less (Fin x) PInf = True"
| "cell_less (Fin x) NInf = False"
| "cell_less PInf b = False"
| "cell_less NInf (Fin y) = True"
| "cell_less NInf PInf = True"
| "cell_less NInf NInf = False"
| "cell_less NaN b = False"
| "cell_less a NaN = False"


section \<open>Shapes and cells\<close>

lemma shape_elementwise: "shape (elementwise f a) = shape a"
  by (simp add: shape_def elementwise_def)

lemma length_elementwise: "length (elementwise f a) = length a"
  by (simp add: elementwise_def)

lemma elementwise_nth:
  "i < length a \<Longrightarrow> j < length (a ! i) \<Longrightarrow> elementwise f a ! i ! j = f (a ! i ! j)"
  by (simp add: elementwise_def)

lemma elementwise_comp: "elementwise f (elementwise g a) = elementwise (\<lambda>c. f (g c)) a"
  by (simp add: elementwise_def comp_def)

lemma ir_BT_elementwise:
  "ir_BT fk1 fk2 bc1 bc2 a = elementwise (ir_BT_cell fk1 fk2 bc1 bc2) a"
proof -
  have "(\<lambda>c. fadd (fmul (Fin bc2) (fdiv (Fin fk2) (flog (fadd (fdiv (Fin fk1) c) (Fin 1)))))
               (Fin bc1)) = ir_BT_cell fk1 fk2 bc1 bc2"
    by (rule ext) (simp add: ir_BT_cell_def)
  then show ?thesis
    by (simp add: ir_BT_def T_def elementwise_comp)
qed

lemma spec_planck_radiance_elementwise:
  "spec_planck_radiance fk1 fk2 bc1 bc2 a = elementwise (spec_planck_cell fk1 fk2 bc1 bc2) a"
proof -
  have "(\<lambda>b. fdiv (Fin fk1) (fsub (fexp (fdiv (Fin fk2) (fdiv (fsub b (Fin bc1)) (Fin bc2))))
            (Fin 1))) = spec_planck_cell fk1 fk2 bc1 bc2"
    by (rule ext) (simp add: spec_planck_cell_def)
  then show ?thesis
    by (simp add: spec_planck_radiance_def elementwise_comp)
qed


section \<open>One cell of the infrared conversion\<close>

text \<open>
  Where the radiance is a non-zero number and the argument of the logarithm is positive,
  the logarithm is not zero (for \<open>fk1 \<noteq> 0\<close>), every intermediate value is finite and the
  cell is the value of the real formula.
\<close>

lemma ln_arg_nonzero:
  fixes l :: real
  assumes "l \<noteq> 0" "0 < fk1 / l + 1" "fk1 \<noteq> 0"
  shows "ln (fk1 / l + 1) \<noteq> 0"
proof -
  have "fk1 / l \<noteq> 0" using assms by simp
  then have "fk1 / l + 1 \<noteq> 1" by simp
  with assms(2) show ?thesis by simp
qed

lemma ir_BT_cell_Fin:
  assumes "l \<noteq> 0" "0 < fk1 / l + 1" "fk1 \<noteq> 0"
  shows "ir_BT_cell fk1 fk2 bc1 bc2 (Fin l) = Fin (bc2 * (fk2 / ln (fk1 / l + 1)) + bc1)"
  using assms ln_arg_nonzero [OF assms] by (simp add: ir_BT_cell_def)

lemma arg_neg_iff:
  fixes l :: real
  assumes "0 < fk1" "l \<noteq> 0"
  shows "fk1 / l + 1 < 0 \<longleftrightarrow> - fk1 < l \<and> l < 0"
proof (cases "0 < l")
  case True
  then have "0 < fk1 / l" using assms by simp
  then show ?thesis using True by simp
next
  case False
  then have l: "l < 0" using assms by simp
  have "fk1 / l + 1 < 0 \<longleftrightarrow> fk1 / l < - 1" by auto
  also have "\<dots> \<longleftrightarrow> - 1 * l < fk1" using l by (simp only: divide_less_eq) simp
  finally show ?thesis using l by auto
qed

lemma ir_BT_cell_NaN_iff:
  assumes "0 < fk1" "0 < fk2" "0 < bc2"
  shows "ir_BT_cell fk1 fk2 bc1 bc2 c = NaN \<longleftrightarrow>
         c = NaN \<or> (\<exists>l. c = Fin l \<and> - fk1 < l \<and> l < 0)"
proof (cases c)
  case (Fin l)
  show ?thesis
  proof (cases "l = 0")
    case True
    then show ?thesis using Fin assms by (simp add: ir_BT_cell_def)
  next
    case False
    consider "fk1 / l + 1 < 0" | "fk1 / l + 1 = 0" | "0 < fk1 / l + 1" by linarith
    then show ?thesis
    proof cases
      case 1
      then show ?thesis using Fin False arg_neg_iff [OF assms(1) False]
        by (simp add: ir_BT_cell_def)
    next
      case 2
      then show ?thesis using Fin False arg_neg_iff [OF assms(1) False]
        by (simp add: ir_BT_cell_def)
    next
      case 3
      have "fk1 \<noteq> 0" using assms by simp
      from ir_BT_cell_Fin [OF False 3 this]
      show ?thesis using Fin 3 arg_neg_iff [OF assms(1) False] by simp
    qed
  qed
next
  case PInf
  then show ?thesis using assms by (simp add: ir_BT_cell_def)
next
  case NInf
  then show ?thesis using assms by (simp add: ir_BT_cell_def)
next
  case NaN
  then show ?thesis by (simp add: ir_BT_cell_def)
qed

lemma round_trip_cell:
  assumes "0 < L" "0 < fk1" "0 < fk2" "0 < bc2"
  shows "spec_planck_cell fk1 fk2 bc1 bc2 (ir_BT_cell fk1 fk2 bc1 bc2 (Fin L)) = Fin L"
proof -
  define x where "x = fk1 / L + 1"
  have q: "0 < fk1 / L" using assms by simp
  have x: "1 < x" using q by (simp add: x_def)
  have lx: "0 < ln x" using x by simp
  have n: "L \<noteq> 0" "0 < fk1 / L + 1" "fk1 \<noteq> 0" using assms q by linarith+
  have fwd: "ir_BT_cell fk1 fk2 bc1 bc2 (Fin L) = Fin (bc2 * (fk2 / ln x) + bc1)"
    unfolding x_def by (rule ir_BT_cell_Fin [OF n])
  have t: "(bc2 * (fk2 / ln x) + bc1 - bc1) / bc2 = fk2 / ln x"
    using assms by simp
  have tn: "fk2 / ln x \<noteq> 0" using assms lx by simp
  have e: "fk2 / (fk2 / ln x) = ln x" using assms by simp
  have ex: "exp (ln x) - 1 = fk1 / L" using x by (simp add: x_def)
  have bk: "fk1 / (fk1 / L) = L" using assms by simp
  have bn: "bc2 \<noteq> 0" using assms by simp
  have qn: "fk1 / L \<noteq> 0" using q by linarith
  show ?thesis
    unfolding fwd spec_planck_cell_def
    using bn tn qn
    by (simp only: fsub.simps fdiv.simps fexp.simps t e ex bk if_True if_False simp_thms)
qed

lemma ln_seven_fifths: "ln (7/5 :: real) \<noteq> 74"
proof -
  have "ln (7/5 :: real) \<le> 7/5 - 1" by (rule ln_le_minus_one) simp
  then show ?thesis by simp
qed

lemma sb_constant_pos: "0 < sb_constant"
  by (simp add: sb_constant_def)

lemma E_cell_NaN_iff: "fmul (Fin sb_constant) (fpow c 4) = NaN \<longleftrightarrow> c = NaN"
  using sb_constant_pos by (cases c) (simp_all add: numeral_eq_Suc)


section \<open>Rounding to nearest\<close>

lemma rhe_of_int: "rhe (of_int n) = n"
  by (simp add: rhe_def)

lemma rhe_ge_floor: "\<lfloor>y\<rfloor> \<le> rhe y"
  by (simp add: rhe_def Let_def)

lemma rhe_le_floor1: "rhe y \<le> \<lfloor>y\<rfloor> + 1"
  by (simp add: rhe_def Let_def)

lemma rhe_le_int: "y \<le> of_int n \<Longrightarrow> rhe y \<le> n"
proof (cases "y = of_int n")
  case True then show ?thesis by (simp add: rhe_of_int)
next
  case False
  assume "y \<le> of_int n"
  with False have "y < of_int n" by simp
  then have "\<lfloor>y\<rfloor> < n" by (simp add: floor_less_iff)
  with rhe_le_floor1 [of y] show ?thesis by linarith
qed

lemma rhe_ge_int: "of_int n \<le> y \<Longrightarrow> n \<le> rhe y"
proof -
  assume "of_int n \<le> y"
  then have "n \<le> \<lfloor>y\<rfloor>" by (simp add: le_floor_iff)
  with rhe_ge_floor [of y] show ?thesis by linarith
qed

lemma rhe_mono: "y \<le> z \<Longrightarrow> rhe y \<le> rhe z"
proof -
  assume yz: "y \<le> z"
  then have fl: "\<lfloor>y\<rfloor> \<le> \<lfloor>z\<rfloor>" by (rule floor_mono)
  show ?thesis
  proof (cases "\<lfloor>y\<rfloor> = \<lfloor>z\<rfloor>")
    case True
    then show ?thesis using yz by (auto simp: rhe_def Let_def)
  next
    case False
    with fl have "\<lfloor>y\<rfloor> + 1 \<le> \<lfloor>z\<rfloor>" by simp
    with rhe_le_floor1 [of y] rhe_ge_floor [of z] show ?thesis by linarith
  qed
qed

lemma floor_minus_nonint:
  fixes y :: real
  assumes "y \<noteq> of_int \<lfloor>y\<rfloor>"
  shows "\<lfloor>- y\<rfloor> = - \<lfloor>y\<rfloor> - 1"
proof -
  have "\<lfloor>- y\<rfloor> = - \<lceil>y\<rceil>" by (rule floor_minus)
  also have "\<lceil>y\<rceil> = \<lfloor>y\<rfloor> + 1" using assms by (simp add: ceiling_altdef)
  finally show ?thesis by simp
qed

lemma rhe_minus: "rhe (- y) = - rhe y"
proof (cases "y = of_int \<lfloor>y\<rfloor>")
  case True
  then obtain n where n: "y = of_int n" ..
  have "rhe (- y) = rhe (of_int (- n))" unfolding n by simp
  also have "\<dots> = - n" by (rule rhe_of_int)
  finally show ?thesis unfolding n by (simp add: rhe_of_int)
next
  case False
  define f where "f = \<lfloor>y\<rfloor>"
  define d where "d = y - of_int f"
  have fm: "\<lfloor>- y\<rfloor> = - f - 1" unfolding f_def by (rule floor_minus_nonint [OF False])
  have d0: "0 < d" using False unfolding d_def f_def
    by (metis diff_gt_0_iff_gt of_int_floor_le order_le_less)
  have e: "- y - of_int (- f - 1) = 1 - d" unfolding d_def by simp
  have r1: "rhe y = (if d < 1/2 then f else if 1/2 < d then f + 1
                     else if even f then f else f + 1)"
    unfolding rhe_def Let_def d_def f_def by simp
  have r2: "rhe (- y) = (if 1 - d < 1/2 then - f - 1 else if 1/2 < 1 - d then - f
                     else if even (- f - 1) then - f - 1 else - f)"
    unfolding rhe_def Let_def fm e by simp
  consider "d < 1/2" | "1/2 < d" | "d = 1/2" by linarith
  then show ?thesis
  proof cases
    case 1 then show ?thesis unfolding r1 r2 by simp
  next
    case 2 then show ?thesis unfolding r1 r2 by simp
  next
    case 3 then show ?thesis unfolding r1 r2 by simp
  qed
qed

lemma floor_log2_bounds:
  fixes x :: real
  assumes "0 < x"
  shows "2 powr of_int \<lfloor>log 2 x\<rfloor> \<le> x" and "x < 2 powr (of_int \<lfloor>log 2 x\<rfloor> + 1)"
proof -
  have b: "(1::real) < 2" by simp
  have "of_int \<lfloor>log 2 x\<rfloor> \<le> log 2 x" by (rule of_int_floor_le)
  with le_log_iff [OF b assms] show "2 powr of_int \<lfloor>log 2 x\<rfloor> \<le> x" by blast
  have "log 2 x < of_int \<lfloor>log 2 x\<rfloor> + 1" by linarith
  with log_less_iff [OF b assms] show "x < 2 powr (of_int \<lfloor>log 2 x\<rfloor> + 1)" by blast
qed

lemma floor_log2_unique:
  fixes x :: real
  assumes "0 < x" "2 powr of_int e \<le> x" "x < 2 powr (of_int e + 1)"
  shows "\<lfloor>log 2 x\<rfloor> = e"
proof (rule floor_unique)
  show "of_int e \<le> log 2 x" using assms by (simp add: le_log_iff)
  show "log 2 x < of_int e + 1" using assms by (simp add: log_less_iff)
qed

lemma rnd_zero: "rnd m 0 = 0"
  by (simp add: rnd_def)

lemma rnd_pos_eval:
  assumes "0 < x" "2 powr of_int e \<le> x" "x < 2 powr (of_int e + 1)"
  shows "rnd m x = of_int (rhe (x / 2 powr (of_int e - real m))) * 2 powr (of_int e - real m)"
  using assms floor_log2_unique [OF assms] by (simp add: rnd_def Let_def)

lemma scaled_bounds:
  fixes x :: real
  assumes "0 < x" "2 powr of_int e \<le> x" "x < 2 powr (of_int e + 1)"
  shows "2 ^ m \<le> x / 2 powr (of_int e - real m)" and "x / 2 powr (of_int e - real m) < 2 ^ (m + 1)"
proof -
  have u: "0 < 2 powr (of_int e - real m)" by simp
  have a: "2 ^ m * 2 powr (of_int e - real m) = 2 powr of_int e"
    by (simp add: powr_realpow [symmetric] powr_add [symmetric])
  have b: "2 ^ (m + 1) * 2 powr (of_int e - real m) = 2 powr (of_int e + 1)"
    by (simp add: powr_realpow [symmetric] powr_add [symmetric] add.commute del: power_Suc)
  show "2 ^ m \<le> x / 2 powr (of_int e - real m)"
    using assms(2) u a by (simp add: le_divide_eq)
  show "x / 2 powr (of_int e - real m) < 2 ^ (m + 1)"
    using assms(3) u b by (simp add: divide_less_eq del: power_Suc)
qed

lemma rnd_pos_bounds:
  assumes "0 < x" "2 powr of_int e \<le> x" "x < 2 powr (of_int e + 1)"
  shows "2 powr of_int e \<le> rnd m x" and "rnd m x \<le> 2 powr (of_int e + 1)"
proof -
  let ?u = "2 powr (of_int e - real m)"
  have u: "0 < ?u" by simp
  have a: "2 ^ m * ?u = 2 powr of_int e"
    by (simp add: powr_realpow [symmetric] powr_add [symmetric])
  have b: "2 ^ (m + 1) * ?u = 2 powr (of_int e + 1)"
    by (simp add: powr_realpow [symmetric] powr_add [symmetric] add.commute del: power_Suc)
  have "of_int (2 ^ m) \<le> x / ?u" using scaled_bounds(1) [OF assms, of m] by simp
  then have "2 ^ m \<le> rhe (x / ?u)" by (rule rhe_ge_int)
  then have lo: "(2::real) ^ m \<le> of_int (rhe (x / ?u))"
    by (metis of_int_le_iff of_int_numeral of_int_power)
  have "x / ?u \<le> of_int (2 ^ (m + 1))" using scaled_bounds(2) [OF assms, of m] by simp
  then have "rhe (x / ?u) \<le> 2 ^ (m + 1)" by (rule rhe_le_int)
  then have hi: "of_int (rhe (x / ?u)) \<le> (2::real) ^ (m + 1)"
    by (metis of_int_le_iff of_int_numeral of_int_power)
  have "2 ^ m * ?u \<le> of_int (rhe (x / ?u)) * ?u"
    using lo u by (simp only: mult_le_cancel_right_pos)
  then show "2 powr of_int e \<le> rnd m x"
    unfolding rnd_pos_eval [OF assms] a .
  have "of_int (rhe (x / ?u)) * ?u \<le> 2 ^ (m + 1) * ?u"
    using hi u by (simp only: mult_le_cancel_right_pos)
  then show "rnd m x \<le> 2 powr (of_int e + 1)"
    unfolding rnd_pos_eval [OF assms] b .
qed

lemma rnd_pos: "0 < x \<Longrightarrow> 0 < rnd m x"
proof -
  assume x: "0 < x"
  have "0 < (2::real) powr of_int \<lfloor>log 2 x\<rfloor>" by simp
  also have "\<dots> \<le> rnd m x"
    by (rule rnd_pos_bounds(1) [OF x floor_log2_bounds [OF x]])
  finally show ?thesis .
qed

lemma rnd_minus: "rnd m (- x) = - rnd m x"
  by (simp add: rnd_def Let_def rhe_minus)

lemma rnd_mono_pos:
  assumes "0 < x" "x \<le> y"
  shows "rnd m x \<le> rnd m y"
proof -
  have y: "0 < y" using assms by linarith
  define ex where "ex = \<lfloor>log 2 x\<rfloor>"
  define ey where "ey = \<lfloor>log 2 y\<rfloor>"
  note bx = floor_log2_bounds [OF assms(1), folded ex_def]
  note by' = floor_log2_bounds [OF y, folded ey_def]
  have "log 2 x \<le> log 2 y" using assms by simp
  then have le: "ex \<le> ey" unfolding ex_def ey_def by (rule floor_mono)
  show ?thesis
  proof (cases "ex = ey")
    case True
    let ?u = "2 powr (of_int ey - real m)"
    have u: "0 < ?u" by simp
    have "x / ?u \<le> y / ?u" using assms(2) u by (simp add: divide_right_mono)
    then have "rhe (x / ?u) \<le> rhe (y / ?u)" by (rule rhe_mono)
    then have "(of_int (rhe (x / ?u)) :: real) \<le> of_int (rhe (y / ?u))" by simp
    then have "of_int (rhe (x / ?u)) * ?u \<le> of_int (rhe (y / ?u)) * ?u"
      using u by (simp only: mult_le_cancel_right_pos)
    then show ?thesis
      using rnd_pos_eval [OF assms(1) bx, of m] rnd_pos_eval [OF y by', of m] True by simp
  next
    case False
    with le have "ex + 1 \<le> ey" by simp
    then have "(of_int ex :: real) + 1 \<le> of_int ey" by linarith
    then have "(2::real) powr (of_int ex + 1) \<le> 2 powr of_int ey" by simp
    with rnd_pos_bounds(2) [OF assms(1) bx, of m] rnd_pos_bounds(1) [OF y by', of m]
    show ?thesis by linarith
  qed
qed

lemma rnd_mono: "x \<le> y \<Longrightarrow> rnd m x \<le> rnd m y"
proof -
  assume xy: "x \<le> y"
  consider "0 < x" | "x = 0" | "x < 0" "y < 0" | "x < 0" "0 \<le> y" by linarith
  then show ?thesis
  proof cases
    case 1 then show ?thesis using xy by (rule rnd_mono_pos)
  next
    case 2
    show ?thesis
    proof (cases "y = 0")
      case True with 2 show ?thesis by simp
    next
      case False
      with 2 xy have "0 < y" by simp
      from rnd_pos [OF this, of m] 2 show ?thesis by (simp add: rnd_zero)
    qed
  next
    case 3
    have "rnd m (- y) \<le> rnd m (- x)" using 3 xy by (intro rnd_mono_pos) simp_all
    then show ?thesis by (simp add: rnd_minus)
  next
    case 4
    have "0 < rnd m (- x)" using 4 by (intro rnd_pos) simp
    then have a: "rnd m x < 0" by (simp add: rnd_minus)
    have "0 \<le> rnd m y"
    proof (cases "y = 0")
      case True then show ?thesis by (simp add: rnd_zero)
    next
      case False
      with 4 have "0 < y" by simp
      from rnd_pos [OF this, of m] show ?thesis by simp
    qed
    with a show ?thesis by linarith
  qed
qed

lemma rnd_one: "rnd m 1 = 1"
proof -
  have "rnd m 1 = of_int (rhe (1 / 2 powr (of_int 0 - real m))) * 2 powr (of_int 0 - real m)"
    by (rule rnd_pos_eval) simp_all
  also have "1 / 2 powr (of_int 0 - real m) = of_int (2 ^ m)"
    by (simp add: powr_minus powr_realpow field_simps)
  also have "of_int (rhe (of_int (2 ^ m))) * 2 powr (of_int 0 - real m) = 1"
    unfolding rhe_of_int by (simp add: powr_minus powr_realpow)
  finally show ?thesis .
qed

lemma rnd_pow2: "rnd m (2 powr of_int k) = 2 powr of_int k"
proof -
  have "rnd m (2 powr of_int k)
        = of_int (rhe (2 powr of_int k / 2 powr (of_int k - real m))) * 2 powr (of_int k - real m)"
    by (rule rnd_pos_eval) simp_all
  also have "2 powr of_int k / 2 powr (of_int k - real m) = of_int (2 ^ m)"
    by (simp add: powr_diff powr_realpow)
  also have "of_int (rhe (of_int (2 ^ m))) * 2 powr (of_int k - real m) = 2 powr of_int k"
    unfolding rhe_of_int by (simp add: powr_diff powr_realpow)
  finally show ?thesis .
qed

lemma rnd_unit_binade:
  assumes "1 \<le> x" "x < 2"
  shows "rnd m x = of_int (rhe (x * 2 ^ m)) / 2 ^ m"
proof -
  have "rnd m x = of_int (rhe (x / 2 powr (of_int 0 - real m))) * 2 powr (of_int 0 - real m)"
    using assms by (intro rnd_pos_eval) simp_all
  also have "2 powr (of_int 0 - real m) = 1 / 2 ^ m"
    by (simp add: powr_minus powr_realpow field_simps)
  finally show ?thesis by simp
qed

lemma rnd_quarter_binade:
  assumes "1/4 \<le> x" "x < 1/2"
  shows "rnd m x = of_int (rhe (x * 2 ^ (m + 2))) / 2 ^ (m + 2)"
proof -
  have p2: "(2::real) powr of_int (- 2) = 1/4" "(2::real) powr (of_int (- 2) + 1) = 1/2"
    by (simp_all add: powr_minus powr_numeral)
  have x0: "0 < x" using assms(1) by linarith
  have lo: "2 powr of_int (- 2) \<le> x" unfolding p2 by (rule assms(1))
  have hi: "x < 2 powr (of_int (- 2) + 1)" unfolding p2 by (rule assms(2))
  have "rnd m x = of_int (rhe (x / 2 powr (of_int (- 2) - real m))) * 2 powr (of_int (- 2) - real m)"
    by (rule rnd_pos_eval [OF x0 lo hi])
  also have "2 powr (of_int (- 2) - real m) = 1 / 2 ^ (m + 2)"
  proof -
    have "of_int (- 2) - real m = - real (m + 2)" by simp
    then show ?thesis by (simp only: powr_minus powr_realpow) (simp add: field_simps)
  qed
  finally show ?thesis by simp
qed

lemma rnd_one_plus_small:
  assumes "0 \<le> q" "q * 2 ^ (m + 1) < 1"
  shows "rnd m (1 + q) = 1"
proof -
  have q2: "q * 2 ^ m < 1/2" using assms(2) by simp
  have q1: "q < 1"
  proof -
    have "q * 1 \<le> q * 2 ^ m" using assms(1) by (intro mult_left_mono) simp_all
    with q2 show ?thesis by simp
  qed
  have s: "(1 + q) * 2 ^ m = of_int (2 ^ m) + q * 2 ^ m" by (simp add: algebra_simps)
  have nn: "0 \<le> q * 2 ^ m" using assms(1) by simp
  have fl: "\<lfloor>(1 + q) * 2 ^ m\<rfloor> = 2 ^ m"
    unfolding s using nn q2 by (intro floor_unique) simp_all
  have "rhe ((1 + q) * 2 ^ m) = 2 ^ m"
    unfolding rhe_def Let_def fl using q2 by (simp add: algebra_simps)
  then show ?thesis
    using rnd_unit_binade [of "1 + q" m] assms(1) q1 by simp
qed

lemma rhe_a: "rhe (2/5 * 2 ^ 54) = 7205759403792794"
  by (simp add: rhe_def Let_def)

lemma rhe_b: "rhe (2 / (5 + 1 / 2 ^ 50) * 2 ^ 54) = 7205759403792792"
  by (simp add: rhe_def Let_def)

lemma rhe_c: "rhe ((7205759403792794 / 2 ^ 54 + 1) * 2 ^ 52) = 6305039478318694"
  by (simp add: rhe_def Let_def)

lemma rhe_d: "rhe ((7205759403792792 / 2 ^ 54 + 1) * 2 ^ 52) = 6305039478318694"
  by (simp add: rhe_def Let_def)


section \<open>One cell of the rounded conversion\<close>

lemma ir_BT_rnd_elementwise:
  "ir_BT_rnd r lg fk1 fk2 bc1 bc2 a = elementwise (ir_BT_rnd_cell r lg fk1 fk2 bc1 bc2) a"
proof -
  have "(\<lambda>c. rnd_cell r (fadd (rnd_cell r (fmul (Fin bc2) (rnd_cell r (fdiv (Fin fk2)
            (rlog lg (rnd_cell r (fadd (rnd_cell r (fdiv (Fin fk1) c)) (Fin 1)))))))) (Fin bc1)))
        = ir_BT_rnd_cell r lg fk1 fk2 bc1 bc2"
    by (rule ext) (simp add: ir_BT_rnd_cell_def after_add_def)
  then show ?thesis
    by (simp add: ir_BT_rnd_def T_rnd_def elementwise_comp)
qed

lemma ir_BT_rnd_exact:
  "ir_BT_rnd (\<lambda>x. x) ln fk1 fk2 bc1 bc2 a = ir_BT fk1 fk2 bc1 bc2 a"
proof -
  have r: "rnd_cell (\<lambda>x. x) c = c" for c by (cases c) simp_all
  have l: "rlog ln c = flog c" for c by (cases c) simp_all
  have "ir_BT_rnd_cell (\<lambda>x. x) ln fk1 fk2 bc1 bc2 = ir_BT_cell fk1 fk2 bc1 bc2"
    by (rule ext) (simp add: ir_BT_rnd_cell_def after_add_def ir_BT_cell_def r l)
  then show ?thesis by (simp add: ir_BT_rnd_elementwise ir_BT_elementwise)
qed

lemma after_add_mono:
  assumes r: "mono r"
      and lg: "\<forall>x y. 1 \<le> x \<and> x \<le> y \<longrightarrow> lg x \<le> lg y" "lg 1 = 0"
      and c: "0 < fk2" "0 < bc2"
      and s: "1 \<le> s2" "s2 \<le> s1"
  shows "cell_le (after_add r lg fk2 bc1 bc2 (Fin s1)) (after_add r lg fk2 bc1 bc2 (Fin s2))"
proof -
  have p1: "0 < s1" and p2: "0 < s2" using s by linarith+
  have l21: "lg s2 \<le> lg s1" using lg(1) s by blast
  have l2: "0 \<le> lg s2" using lg(1) [rule_format, of 1 s2] lg(2) s by simp
  show ?thesis
  proof (cases "lg s2 = 0")
    case True
    have a2: "after_add r lg fk2 bc1 bc2 (Fin s2) = PInf"
      using True p2 c by (simp add: after_add_def)
    have "after_add r lg fk2 bc1 bc2 (Fin s1) = PInf \<or>
          (\<exists>b. after_add r lg fk2 bc1 bc2 (Fin s1) = Fin b)"
      using p1 c by (simp add: after_add_def)
    with a2 show ?thesis by auto
  next
    case False
    with l2 have g2: "0 < lg s2" by simp
    with l21 have g1: "0 < lg s1" by linarith
    have "fk2 / lg s1 \<le> fk2 / lg s2"
      using l21 g2 c(1) by (simp add: frac_le)
    then have t: "r (fk2 / lg s1) \<le> r (fk2 / lg s2)" by (rule monoD [OF r])
    have "bc2 * r (fk2 / lg s1) \<le> bc2 * r (fk2 / lg s2)"
      using t c(2) by (simp only: mult_le_cancel_left_pos)
    then have m: "r (bc2 * r (fk2 / lg s1)) \<le> r (bc2 * r (fk2 / lg s2))"
      by (rule monoD [OF r])
    then have "r (bc2 * r (fk2 / lg s1)) + bc1 \<le> r (bc2 * r (fk2 / lg s2)) + bc1" by simp
    then have "r (r (bc2 * r (fk2 / lg s1)) + bc1) \<le> r (r (bc2 * r (fk2 / lg s2)) + bc1)"
      by (rule monoD [OF r])
    then show ?thesis
      using p1 p2 g1 g2 by (simp add: after_add_def)
  qed
qed

lemma ir_BT_rnd_cell_mono:
  assumes r: "mono r" "r 0 = 0" "r 1 = 1"
      and lg: "\<forall>x y. 1 \<le> x \<and> x \<le> y \<longrightarrow> lg x \<le> lg y" "lg 1 = 0"
      and c: "0 < fk1" "0 < fk2" "0 < bc2"
      and L: "0 < L1" "L1 \<le> L2"
  shows "cell_le (ir_BT_rnd_cell r lg fk1 fk2 bc1 bc2 (Fin L1))
                 (ir_BT_rnd_cell r lg fk1 fk2 bc1 bc2 (Fin L2))"
proof -
  have L2: "0 < L2" using L by linarith
  have "fk1 / L2 \<le> fk1 / L1" using L c(1) by (simp add: frac_le)
  then have q: "r (fk1 / L2) \<le> r (fk1 / L1)" by (rule monoD [OF r(1)])
  have "0 \<le> fk1 / L2" using c(1) L2 by simp
  then have "r 0 \<le> r (fk1 / L2)" by (rule monoD [OF r(1)])
  then have q0: "0 \<le> r (fk1 / L2)" using r(2) by simp
  have "r (fk1 / L2) + 1 \<le> r (fk1 / L1) + 1" using q by simp
  then have s: "r (r (fk1 / L2) + 1) \<le> r (r (fk1 / L1) + 1)" by (rule monoD [OF r(1)])
  have "1 \<le> r (fk1 / L2) + 1" using q0 by simp
  then have "r 1 \<le> r (r (fk1 / L2) + 1)" by (rule monoD [OF r(1)])
  then have s1: "1 \<le> r (r (fk1 / L2) + 1)" using r(3) by simp
  have e1: "ir_BT_rnd_cell r lg fk1 fk2 bc1 bc2 (Fin L1)
            = after_add r lg fk2 bc1 bc2 (Fin (r (r (fk1 / L1) + 1)))"
    using L(1) by (simp add: ir_BT_rnd_cell_def)
  have e2: "ir_BT_rnd_cell r lg fk1 fk2 bc1 bc2 (Fin L2)
            = after_add r lg fk2 bc1 bc2 (Fin (r (r (fk1 / L2) + 1)))"
    using L2 by (simp add: ir_BT_rnd_cell_def)
  show ?thesis
    unfolding e1 e2 by (rule after_add_mono [OF r(1) lg c(2,3) s1 s])
qed

lemma binary64_mono: "mono binary64"
  unfolding binary64_def by (rule monoI) (rule rnd_mono)

lemma binary64_zero: "binary64 0 = 0"
  by (simp add: binary64_def rnd_zero)

lemma binary64_one: "binary64 1 = 1"
  by (simp add: binary64_def rnd_one)

lemma log64_mono: "\<forall>x y. 1 \<le> x \<and> x \<le> y \<longrightarrow> log64 x \<le> log64 y"
proof (intro allI impI)
  fix x y :: real
  assume "1 \<le> x \<and> x \<le> y"
  then have "ln x \<le> ln y" by simp
  then show "log64 x \<le> log64 y"
    unfolding log64_def binary64_def by (rule rnd_mono)
qed

lemma log64_one: "log64 1 = 0"
  by (simp add: log64_def binary64_def rnd_zero)

lemma cell_less_irrefl: "\<not> cell_less c c"
  by (cases c) simp_all

lemma binary64_two_fifths: "binary64 (2/5) = 7205759403792794 / 2 ^ 54"
proof -
  have "rnd 52 (2/5) = of_int (rhe (2/5 * 2 ^ (52 + 2))) / 2 ^ (52 + 2)"
    by (rule rnd_quarter_binade) simp_all
  then show ?thesis unfolding binary64_def using rhe_a by simp
qed

lemma binary64_two_fifths_next:
  "binary64 (2 / (5 + 1 / 2 ^ 50)) = 7205759403792792 / 2 ^ 54"
proof -
  have "rnd 52 (2 / (5 + 1 / 2 ^ 50))
        = of_int (rhe (2 / (5 + 1 / 2 ^ 50) * 2 ^ (52 + 2))) / 2 ^ (52 + 2)"
    by (rule rnd_quarter_binade) simp_all
  then show ?thesis unfolding binary64_def using rhe_b by simp
qed

lemma binary64_sum_a: "binary64 (7205759403792794 / 2 ^ 54 + 1) = 6305039478318694 / 2 ^ 52"
proof -
  have "rnd 52 (7205759403792794 / 2 ^ 54 + 1)
        = of_int (rhe ((7205759403792794 / 2 ^ 54 + 1) * 2 ^ 52)) / 2 ^ 52"
    by (rule rnd_unit_binade) simp_all
  then show ?thesis unfolding binary64_def using rhe_c by simp
qed

lemma binary64_sum_b: "binary64 (7205759403792792 / 2 ^ 54 + 1) = 6305039478318694 / 2 ^ 52"
proof -
  have "rnd 52 (7205759403792792 / 2 ^ 54 + 1)
        = of_int (rhe ((7205759403792792 / 2 ^ 54 + 1) * 2 ^ 52)) / 2 ^ 52"
    by (rule rnd_unit_binade) simp_all
  then show ?thesis unfolding binary64_def using rhe_d by simp
qed

lemma ir_BT_rnd_cell_Fin:
  assumes "L \<noteq> 0"
  shows "ir_BT_rnd_cell r lg fk1 fk2 bc1 bc2 (Fin L)
         = after_add r lg fk2 bc1 bc2 (Fin (r (r (fk1 / L) + 1)))"
  using assms by (simp add: ir_BT_rnd_cell_def)

lemma adjacent_cells_equal:
  "ir_BT_rnd_cell binary64 log64 2 fk2 bc1 bc2 (Fin 5)
   = ir_BT_rnd_cell binary64 log64 2 fk2 bc1 bc2 (Fin (5 + 1 / 2 ^ 50))"
proof -
  have n5: "(5::real) \<noteq> 0" and n: "5 + 1 / 2 ^ 50 \<noteq> (0::real)" by simp_all
  have sa: "binary64 (binary64 (2 / 5) + 1) = 6305039478318694 / 2 ^ 52"
    by (simp only: binary64_two_fifths binary64_sum_a)
  have sb: "binary64 (binary64 (2 / (5 + 1 / 2 ^ 50)) + 1) = 6305039478318694 / 2 ^ 52"
    by (simp only: binary64_two_fifths_next binary64_sum_b)
  show ?thesis
    unfolding ir_BT_rnd_cell_Fin [OF n5] ir_BT_rnd_cell_Fin [OF n] sa sb ..
qed

lemma saturated_cell:
  assumes "0 < fk2" "0 < bc2" "0 < q" "q \<le> 2 powr of_int (- 54)"
  shows "after_add binary64 log64 fk2 bc1 bc2 (Fin (binary64 (binary64 q + 1))) = PInf"
proof -
  have "binary64 q \<le> binary64 (2 powr of_int (- 54))"
    using assms(4) by (rule monoD [OF binary64_mono])
  also have "\<dots> = 2 powr of_int (- 54)" unfolding binary64_def by (rule rnd_pow2)
  also have "\<dots> = 1 / 2 ^ 54" by (simp add: powr_minus powr_numeral field_simps)
  finally have hi: "binary64 q \<le> 1 / 2 ^ 54" .
  have lo: "0 < binary64 q" unfolding binary64_def using assms(3) by (rule rnd_pos)
  have "binary64 q * 2 ^ (52 + 1) \<le> 1 / 2 ^ 54 * 2 ^ (52 + 1)"
    using hi by (intro mult_right_mono) simp_all
  then have "binary64 q * 2 ^ (52 + 1) < 1" by simp
  then have "rnd 52 (1 + binary64 q) = 1"
    using lo by (intro rnd_one_plus_small) simp_all
  then have s: "binary64 (binary64 q + 1) = 1" by (simp add: binary64_def add.commute)
  show ?thesis
    unfolding s using assms(1,2) by (simp add: after_add_def log64_one)
qed


section \<open>The infrared conversion\<close>

text \<open>
  Claim C1. For every radiance field and band constants \<open>fk1\<close>, \<open>fk2\<close>, \<open>bc1\<close>, \<open>bc2\<close>, the
  infrared conversion computes cell by cell \<open>T = fk2 / ln (fk1 / radiance + 1)\<close> and then
  \<open>BT = bc2 * T + bc1\<close>, and the brightness-temperature field has the shape of the radiance
  field. Every cell is the formula evaluated with the array operations; where the
  radiance is a non-zero number \<open>L\<close> with \<open>0 < fk1 / L + 1\<close> and \<open>fk1 \<noteq> 0\<close> (in particular for
  \<open>L > 0\<close> and \<open>fk1 > 0\<close>) that is the value of the formula over the reals.
\<close>

theorem ir_BT_contract:
  "shape (ir_BT fk1 fk2 bc1 bc2 ir_rad) = shape ir_rad \<and>
   length (ir_BT fk1 fk2 bc1 bc2 ir_rad) = length ir_rad \<and>
   (\<forall>i<length ir_rad. \<forall>j<length (ir_rad ! i).
      T fk1 fk2 ir_rad ! i ! j =
        fdiv (Fin fk2) (flog (fadd (fdiv (Fin fk1) (ir_rad ! i ! j)) (Fin 1))) \<and>
      ir_BT fk1 fk2 bc1 bc2 ir_rad ! i ! j =
        fadd (fmul (Fin bc2) (T fk1 fk2 ir_rad ! i ! j)) (Fin bc1) \<and>
      (\<forall>L. ir_rad ! i ! j = Fin L \<and> L \<noteq> 0 \<and> 0 < fk1 / L + 1 \<and> fk1 \<noteq> 0 \<longrightarrow>
         T fk1 fk2 ir_rad ! i ! j = Fin (fk2 / ln (fk1 / L + 1)) \<and>
         ir_BT fk1 fk2 bc1 bc2 ir_rad ! i ! j = Fin (bc2 * (fk2 / ln (fk1 / L + 1)) + bc1)))"
proof (intro conjI allI impI)
  show "shape (ir_BT fk1 fk2 bc1 bc2 ir_rad) = shape ir_rad"
    by (simp add: ir_BT_elementwise shape_elementwise)
  show "length (ir_BT fk1 fk2 bc1 bc2 ir_rad) = length ir_rad"
    by (simp add: ir_BT_elementwise length_elementwise)
next
  fix i j
  assume ij: "i < length ir_rad" "j < length (ir_rad ! i)"
  show t: "T fk1 fk2 ir_rad ! i ! j =
        fdiv (Fin fk2) (flog (fadd (fdiv (Fin fk1) (ir_rad ! i ! j)) (Fin 1)))"
    using ij by (simp add: T_def elementwise_comp elementwise_nth)
  show b: "ir_BT fk1 fk2 bc1 bc2 ir_rad ! i ! j =
        fadd (fmul (Fin bc2) (T fk1 fk2 ir_rad ! i ! j)) (Fin bc1)"
    using ij by (simp add: ir_BT_elementwise elementwise_nth t ir_BT_cell_def)
  fix L
  assume "ir_rad ! i ! j = Fin L \<and> L \<noteq> 0 \<and> 0 < fk1 / L + 1 \<and> fk1 \<noteq> 0"
  then have c: "ir_rad ! i ! j = Fin L" and d: "L \<noteq> 0" "0 < fk1 / L + 1" "fk1 \<noteq> 0"
    by simp_all
  have n: "ln (fk1 / L + 1) \<noteq> 0" by (rule ln_arg_nonzero [OF d])
  show "T fk1 fk2 ir_rad ! i ! j = Fin (fk2 / ln (fk1 / L + 1))"
    using t c d n by simp
  show "ir_BT fk1 fk2 bc1 bc2 ir_rad ! i ! j = Fin (bc2 * (fk2 / ln (fk1 / L + 1)) + bc1)"
    using ij c ir_BT_cell_Fin [OF d, of fk2 bc1 bc2]
    by (simp add: ir_BT_elementwise elementwise_nth)
qed

theorem ir_BT_contract_witness:
  "shape (ir_BT 2 3700 (1/2) (99/100) [[Fin 5, Fin 1], [Fin 2, NaN]]) = [2, 2] \<and>
   T 2 3700 [[Fin 5, Fin 1], [Fin 2, NaN]] ! 0 ! 0 = Fin (3700 / ln (7/5)) \<and>
   ir_BT 2 3700 (1/2) (99/100) [[Fin 5, Fin 1], [Fin 2, NaN]] ! 0 ! 0
     = Fin (99/100 * (3700 / ln (7/5)) + 1/2)"
  using ir_BT_contract [of 2 3700 "1/2" "99/100" "[[Fin 5, Fin 1], [Fin 2, NaN]]"]
  by (simp add: shape_def)

text \<open>
  Claim C2, as stated: a cell whose radiance is \<open>L \<le> 0\<close> is marked undefined and never gets
  a finite brightness temperature, for example not \<open>bc1\<close> at radiance 0. At radiance \<open>+0.0\<close>
  the array operations do give \<open>bc1\<close>: \<open>fk1 / 0\<close> is plus infinity, its logarithm is plus
  infinity, \<open>fk2\<close> divided by it is 0.
\<close>

theorem ir_BT_zero_radiance_counterexample:
  "ir_BT 2 3700 (1/2) (99/100) [[Fin 0, Fin 5]] ! 0 ! 0 = Fin (1/2) \<and>
   ir_BT 2 3700 (1/2) (99/100) [[Fin 0, Fin 5]] ! 0 ! 0 \<noteq> NaN"
  by (simp add: ir_BT_elementwise elementwise_def ir_BT_cell_def)

text \<open>
  Claim C2, amended. With \<open>fk1\<close>, \<open>fk2\<close>, \<open>bc2\<close> positive, a cell of the brightness
  temperature whose radiance is not zero is NaN exactly when the radiance cell is already
  NaN or is a number \<open>L\<close> with \<open>- fk1 < L < 0\<close> (that is, \<open>fk1 / L + 1 < 0\<close>), whatever the
  other cells hold; a cell of radiance \<open>+0.0\<close> (\<open>Fin 0\<close>) is not NaN: it gets the finite value
  \<open>bc1\<close>. A radiance of \<open>-0.0\<close> has no cell here and the statement says nothing about it.
  Nothing is said either about which non-NaN value the other cells get.
\<close>

theorem ir_BT_undefined_cells:
  assumes "0 < fk1" "0 < fk2" "0 < bc2"
      and "i < length ir_rad" "j < length (ir_rad ! i)"
  shows "(ir_rad ! i ! j \<noteq> Fin 0 \<longrightarrow>
            (ir_BT fk1 fk2 bc1 bc2 ir_rad ! i ! j = NaN \<longleftrightarrow>
               ir_rad ! i ! j = NaN \<or>
               (\<exists>L. ir_rad ! i ! j = Fin L \<and> - fk1 < L \<and> L < 0))) \<and>
         (ir_rad ! i ! j = Fin 0 \<longrightarrow> ir_BT fk1 fk2 bc1 bc2 ir_rad ! i ! j = Fin bc1)"
proof -
  have c: "ir_BT fk1 fk2 bc1 bc2 ir_rad ! i ! j = ir_BT_cell fk1 fk2 bc1 bc2 (ir_rad ! i ! j)"
    using assms(4,5) by (simp add: ir_BT_elementwise elementwise_nth)
  have "ir_BT_cell fk1 fk2 bc1 bc2 (Fin 0) = Fin bc1"
    using assms(1) by (simp add: ir_BT_cell_def)
  then show ?thesis
    unfolding c using ir_BT_cell_NaN_iff [OF assms(1-3), of bc1 "ir_rad ! i ! j"] by auto
qed

theorem ir_BT_undefined_cells_witness:
  "ir_BT 2 3700 (1/2) (99/100) [[Fin 0, Fin 5, Fin (- 1)]] ! 0 ! 2 = NaN \<and>
   ir_BT 2 3700 (1/2) (99/100) [[Fin 0, Fin 5, Fin (- 1)]] ! 0 ! 1 \<noteq> NaN \<and>
   ir_BT 2 3700 (1/2) (99/100) [[Fin 0, Fin 5, Fin (- 1)]] ! 0 ! 0 = Fin (1/2)"
  using ir_BT_undefined_cells [of 2 3700 "99/100" 0 "[[Fin 0, Fin 5, Fin (- 1)]]" 2 "1/2"]
        ir_BT_undefined_cells [of 2 3700 "99/100" 0 "[[Fin 0, Fin 5, Fin (- 1)]]" 1 "1/2"]
        ir_BT_undefined_cells [of 2 3700 "99/100" 0 "[[Fin 0, Fin 5, Fin (- 1)]]" 0 "1/2"]
  by simp

text \<open>
  Claim C4. Round trip: for radiances \<open>L > 0\<close> and band constants \<open>fk1\<close>, \<open>fk2\<close>, \<open>bc2\<close>
  positive, the infrared conversion followed by the specification's inverse
  (\<open>T = (BT - bc1) / bc2\<close>, then \<open>L' = fk1 / (exp (fk2 / T) - 1)\<close>) gives back the radiance
  field, exactly over the reals.
\<close>

theorem planck_round_trip:
  assumes "\<forall>row \<in> set ir_rad. \<forall>c \<in> set row. \<exists>L>0. c = Fin L"
      and "0 < fk1" "0 < fk2" "0 < bc2"
  shows "spec_planck_radiance fk1 fk2 bc1 bc2 (ir_BT fk1 fk2 bc1 bc2 ir_rad) = ir_rad"
proof -
  have "map (map (\<lambda>c. spec_planck_cell fk1 fk2 bc1 bc2 (ir_BT_cell fk1 fk2 bc1 bc2 c))) ir_rad
        = map (map (\<lambda>c. c)) ir_rad"
  proof (intro map_cong refl)
    fix row c
    assume "row \<in> set ir_rad" "c \<in> set row"
    with assms(1) obtain L where "0 < L" "c = Fin L" by blast
    then show "spec_planck_cell fk1 fk2 bc1 bc2 (ir_BT_cell fk1 fk2 bc1 bc2 c) = c"
      using round_trip_cell [OF _ assms(2-4)] by simp
  qed
  then show ?thesis
    by (simp add: spec_planck_radiance_elementwise ir_BT_elementwise elementwise_def comp_def)
qed

theorem planck_round_trip_witness:
  "spec_planck_radiance 2 3700 (1/2) (99/100)
     (ir_BT 2 3700 (1/2) (99/100) [[Fin 5, Fin 1], [Fin 2, Fin 7]])
   = [[Fin 5, Fin 1], [Fin 2, Fin 7]]"
  using planck_round_trip [of "[[Fin 5, Fin 1], [Fin 2, Fin 7]]" 2 3700 "99/100" "1/2"]
  by simp

text \<open>
  Claim C5, as stated: for radiances \<open>0 < L1 < L2\<close> and positive \<open>fk1\<close>, \<open>fk2\<close>, \<open>bc2\<close> the
  brightness temperature of \<open>L1\<close> is strictly below that of \<open>L2\<close>. In binary64 it is not:
  the radiance 5 and the next number above it, \<open>5 + 1 / 2 ^ 50\<close>, give the same rounded
  sum \<open>fk1 / L + 1\<close> and so the same brightness temperature, and the radiances \<open>2 ^ 70\<close> and
  \<open>2 ^ 71\<close> both give a rounded sum of 1, a logarithm of 0 and plus infinity.
\<close>

theorem ir_BT_rnd_not_strict_counterexample:
  "ir_BT_rnd binary64 log64 2 3700 (1/2) (99/100) [[Fin 5, Fin (5 + 1 / 2 ^ 50)]] ! 0 ! 0
   = ir_BT_rnd binary64 log64 2 3700 (1/2) (99/100) [[Fin 5, Fin (5 + 1 / 2 ^ 50)]] ! 0 ! 1 \<and>
   \<not> cell_less
       (ir_BT_rnd binary64 log64 2 3700 (1/2) (99/100) [[Fin 5, Fin (5 + 1 / 2 ^ 50)]] ! 0 ! 0)
       (ir_BT_rnd binary64 log64 2 3700 (1/2) (99/100) [[Fin 5, Fin (5 + 1 / 2 ^ 50)]] ! 0 ! 1) \<and>
   ir_BT_rnd binary64 log64 2 3700 (1/2) (99/100) [[Fin (2 ^ 70), Fin (2 ^ 71)]]
   = [[PInf, PInf]]"
proof -
  let ?c = "ir_BT_rnd_cell binary64 log64 2 3700 (1/2) (99/100)"
  have e: "?c (Fin 5) = ?c (Fin (5 + 1 / 2 ^ 50))" by (rule adjacent_cells_equal)
  have f: "ir_BT_rnd binary64 log64 2 3700 (1/2) (99/100) [[Fin 5, Fin (5 + 1 / 2 ^ 50)]]
           = [[?c (Fin 5), ?c (Fin (5 + 1 / 2 ^ 50))]]"
    by (simp only: ir_BT_rnd_elementwise elementwise_def list.map)
  have n70: "(2::real) ^ 70 \<noteq> 0" and n71: "(2::real) ^ 71 \<noteq> 0" by simp_all
  have q70: "(2::real) / 2 ^ 70 \<le> 2 powr of_int (- 54)"
    and q71: "(2::real) / 2 ^ 71 \<le> 2 powr of_int (- 54)"
    by (simp_all add: powr_minus powr_numeral field_simps)
  have p70: "0 < (2::real) / 2 ^ 70" and p71: "0 < (2::real) / 2 ^ 71" by simp_all
  have c1: "(0::real) < 3700" and c2: "(0::real) < 99/100" by simp_all
  have s70: "?c (Fin (2 ^ 70)) = PInf"
    unfolding ir_BT_rnd_cell_Fin [OF n70] by (rule saturated_cell [OF c1 c2 p70 q70])
  have s71: "?c (Fin (2 ^ 71)) = PInf"
    unfolding ir_BT_rnd_cell_Fin [OF n71] by (rule saturated_cell [OF c1 c2 p71 q71])
  have g: "ir_BT_rnd binary64 log64 2 3700 (1/2) (99/100) [[Fin (2 ^ 70), Fin (2 ^ 71)]]
           = [[PInf, PInf]]"
    by (simp only: ir_BT_rnd_elementwise elementwise_def list.map s70 s71)
  let ?bt = "ir_BT_rnd binary64 log64 2 3700 (1/2) (99/100) [[Fin 5, Fin (5 + 1 / 2 ^ 50)]]"
  have i0: "?bt ! 0 ! 0 = ?c (Fin 5)"
    and i1: "?bt ! 0 ! 1 = ?c (Fin (5 + 1 / 2 ^ 50))"
    unfolding f by (simp_all only: nth_Cons_0 nth_Cons_Suc One_nat_def)
  have eq: "?bt ! 0 ! 0 = ?bt ! 0 ! 1" unfolding i0 i1 by (rule e)
  have nl: "\<not> cell_less (?bt ! 0 ! 0) (?bt ! 0 ! 1)" unfolding eq by (rule cell_less_irrefl)
  from eq nl g show ?thesis by (intro conjI)
qed

text \<open>
  Claim C5, amended. For radiances \<open>0 < L1 < L2\<close> and positive \<open>fk1\<close>, \<open>fk2\<close>, \<open>bc2\<close> the
  conversion does not decrease: the brightness temperature of \<open>L1\<close> is \<^verbatim>\<open><=\<close> that of
  \<open>L2\<close> (plus infinity being the largest value), for every rounding \<open>r\<close> of the arithmetic
  that is monotone and exact at 0 and 1, and every logarithm \<open>lg\<close> that is monotone from 1
  on with \<open>lg 1 = 0\<close>. Rounding to nearest in binary64 and a correctly rounded logarithm are
  such a pair.
\<close>

theorem ir_BT_rnd_nondecreasing:
  assumes "mono r" "r 0 = 0" "r 1 = 1"
      and "\<forall>x y. 1 \<le> x \<and> x \<le> y \<longrightarrow> lg x \<le> lg y" "lg 1 = 0"
      and "0 < fk1" "0 < fk2" "0 < bc2"
      and "i < length ir_rad" "j < length (ir_rad ! i)"
      and "k < length ir_rad" "m < length (ir_rad ! k)"
      and "ir_rad ! i ! j = Fin L1" "ir_rad ! k ! m = Fin L2"
      and "0 < L1" "L1 < L2"
  shows "cell_le (ir_BT_rnd r lg fk1 fk2 bc1 bc2 ir_rad ! i ! j)
                 (ir_BT_rnd r lg fk1 fk2 bc1 bc2 ir_rad ! k ! m)"
proof -
  have le: "L1 \<le> L2" using assms(16) by simp
  have "cell_le (ir_BT_rnd_cell r lg fk1 fk2 bc1 bc2 (Fin L1))
                (ir_BT_rnd_cell r lg fk1 fk2 bc1 bc2 (Fin L2))"
    by (rule ir_BT_rnd_cell_mono [OF assms(1-8) assms(15) le])
  then show ?thesis
    using assms(9-14) by (simp add: ir_BT_rnd_elementwise elementwise_nth)
qed

theorem ir_BT_rnd_nondecreasing_witness:
  "cell_le (ir_BT_rnd binary64 log64 2 3700 (1/2) (99/100) [[Fin 5, Fin 7]] ! 0 ! 0)
           (ir_BT_rnd binary64 log64 2 3700 (1/2) (99/100) [[Fin 5, Fin 7]] ! 0 ! 1)"
  using ir_BT_rnd_nondecreasing [OF binary64_mono binary64_zero binary64_one log64_mono log64_one,
          of 2 3700 "99/100" 0 "[[Fin 5, Fin 7]]" 0 0 1 5 7 "1/2"]
  by simp


section \<open>The water-vapour conversion\<close>

text \<open>
  Claim C7 says that the water-vapour form \<open>(fk2 / ln (fk1 / L + 1) - bc1) / bc2\<close> and the
  infrared form \<open>bc2 * (fk2 / ln (fk1 / L + 1)) + bc1\<close> give the same brightness temperature
  for every \<open>L > 0\<close> and the same band constants. The notebook introduces the water-vapour
  cell as "the same process that we used for the infrared channel above"; the two lines
  of code differ. At \<open>fk1 = 2\<close>, \<open>fk2 = 3700\<close>, \<open>bc1 = 0.5\<close>, \<open>bc2 = 0.99\<close>, \<open>L = 5\<close> they would
  agree only if \<open>ln 1.4\<close> were 74.
\<close>

theorem wv_BT_differs_from_ir_BT:
  "wv_BT 2 3700 (1/2) (99/100) [[Fin 5]] = [[Fin ((3700 / ln (7/5) - 1/2) / (99/100))]] \<and>
   ir_BT 2 3700 (1/2) (99/100) [[Fin 5]] = [[Fin (99/100 * (3700 / ln (7/5)) + 1/2)]] \<and>
   wv_BT 2 3700 (1/2) (99/100) [[Fin 5]] \<noteq> ir_BT 2 3700 (1/2) (99/100) [[Fin 5]]"
proof -
  have p: "0 < ln (7/5 :: real)" by simp
  then have n: "ln (7/5 :: real) \<noteq> 0" by simp
  have w: "wv_BT 2 3700 (1/2) (99/100) [[Fin 5]]
            = [[Fin ((3700 / ln (7/5) - 1/2) / (99/100))]]"
    using n by (simp add: wv_BT_def elementwise_def)
  have i: "ir_BT 2 3700 (1/2) (99/100) [[Fin 5]]
            = [[Fin (99/100 * (3700 / ln (7/5)) + 1/2)]]"
    using n by (simp add: ir_BT_elementwise elementwise_def ir_BT_cell_def)
  have "(3700 / ln (7/5) - 1/2) / (99/100) \<noteq> 99/100 * (3700 / ln (7/5)) + (1/2 :: real)"
  proof
    assume "(3700 / ln (7/5) - 1/2) / (99/100) = 99/100 * (3700 / ln (7/5)) + (1/2 :: real)"
    then have "3700 / ln (7/5 :: real) = 50" by (simp add: field_simps)
    then have "ln (7/5 :: real) = 74" using n by (simp add: field_simps)
    then show False using ln_seven_fifths by simp
  qed
  then show ?thesis using w i by simp
qed


section \<open>The reflectance factor\<close>

text \<open>
  Claim C8. For every radiance field and constant \<open>kappa0\<close>, the reflectance is, cell by
  cell, \<open>sqrt (radiance * kappa0)\<close>: a cell where \<open>radiance * kappa0 < 0\<close> is NaN, every other
  cell holding a number gets the square root, and the shape is kept.
\<close>

theorem vis_contract:
  "shape (vis Rad kappa0) = shape Rad \<and>
   length (vis Rad kappa0) = length Rad \<and>
   (\<forall>i<length Rad. \<forall>j<length (Rad ! i).
      vis Rad kappa0 ! i ! j = fsqrt (fmul (Rad ! i ! j) (Fin kappa0)) \<and>
      (\<forall>L. Rad ! i ! j = Fin L \<longrightarrow>
         vis Rad kappa0 ! i ! j = (if L * kappa0 < 0 then NaN else Fin (sqrt (L * kappa0)))))"
  by (simp add: vis_def elementwise_comp shape_elementwise length_elementwise elementwise_nth)

theorem vis_contract_witness:
  "shape (vis [[Fin 4, Fin (- 1)], [Fin 0, Fin 9]] 1) = [2, 2] \<and>
   vis [[Fin 4, Fin (- 1)], [Fin 0, Fin 9]] 1 = [[Fin 2, NaN], [Fin 0, Fin 3]]"
proof -
  let ?a = "[[Fin 4, Fin (- 1)], [Fin 0, Fin 9]]"
  have s4: "sqrt 4 = (2::real)" and s9: "sqrt 9 = (3::real)"
    using real_sqrt_abs [of 2] real_sqrt_abs [of 3] by simp_all
  have c: "\<And>i j L. i < 2 \<Longrightarrow> j < 2 \<Longrightarrow> ?a ! i ! j = Fin L \<Longrightarrow>
             vis ?a 1 ! i ! j = (if L * 1 < 0 then NaN else Fin (sqrt (L * 1)))"
    using vis_contract [of ?a 1] by (auto simp: nth_Cons' split: if_splits)
  have "vis ?a 1 ! 0 ! 0 = Fin 2" using c [of 0 0 4] s4 by simp
  moreover have "vis ?a 1 ! 0 ! 1 = NaN" using c [of 0 1 "- 1"] by simp
  moreover have "vis ?a 1 ! 1 ! 0 = Fin 0" using c [of 1 0 0] by simp
  moreover have "vis ?a 1 ! 1 ! 1 = Fin 3" using c [of 1 1 9] s9 by simp
  moreover have "shape (vis ?a 1) = [2, 2]" using vis_contract [of ?a 1] by (simp add: shape_def)
  moreover have "length (vis ?a 1) = 2" using vis_contract [of ?a 1] by simp
  ultimately show ?thesis
    by (simp add: shape_def list_eq_iff_nth_eq nth_Cons' less_Suc_eq numeral_2_eq_2 all_conj_distrib)
qed


section \<open>The emitted energy\<close>

text \<open>
  Claim C9. For every brightness-temperature field, the emitted energy is, cell by cell,
  \<open>sigma * T\<^sup>4\<close> with \<open>sigma = 5.67e-8\<close>: a function of the field alone, of the same shape,
  finite on every finite cell, and NaN exactly on the cells that were NaN already.
\<close>

theorem E_contract:
  "shape (E bt) = shape bt \<and>
   length (E bt) = length bt \<and>
   (\<forall>i<length bt. \<forall>j<length (bt ! i).
      (\<forall>t. bt ! i ! j = Fin t \<longrightarrow> E bt ! i ! j = Fin (567 / 10 ^ 10 * t ^ 4)) \<and>
      (E bt ! i ! j = NaN \<longleftrightarrow> bt ! i ! j = NaN))"
proof (intro conjI allI impI)
  show "shape (E bt) = shape bt" by (simp add: E_def shape_elementwise)
  show "length (E bt) = length bt" by (simp add: E_def length_elementwise)
next
  fix i j
  assume ij: "i < length bt" "j < length (bt ! i)"
  have c: "E bt ! i ! j = fmul (Fin sb_constant) (fpow (bt ! i ! j) 4)"
    using ij by (simp add: E_def elementwise_comp elementwise_nth)
  show "E bt ! i ! j = NaN \<longleftrightarrow> bt ! i ! j = NaN"
    unfolding c by (rule E_cell_NaN_iff)
  fix t
  assume "bt ! i ! j = Fin t"
  then show "E bt ! i ! j = Fin (567 / 10 ^ 10 * t ^ 4)"
    unfolding c by (simp add: sb_constant_def numeral_eq_Suc)
qed

theorem E_contract_witness:
  "shape (E [[Fin 100, NaN]]) = [2] \<and>
   E [[Fin 100, NaN]] ! 0 ! 0 = Fin (567 / 100) \<and>
   E [[Fin 100, NaN]] ! 0 ! 1 = NaN"
  using E_contract [of "[[Fin 100, NaN]]"]
  by (simp add: shape_def)

end
